theory Spec2Isabelle
  imports Main "HOL-Library.Sublist"
begin

section \<open>JavaScript strings, arrays and Sets\<close>

text \<open>
  Strings are \<open>string\<close> (lists of bytes). The only string operations of \<open>app.js\<close> are
  concatenation, \<open>split('/')\<close>, \<open>startsWith\<close>, \<open>includes\<close>, \<open>trim\<close> and
  \<open>'='.repeat(80)\<close>; on these a UTF-8 byte string behaves as the UTF-16 string does.
  \<open>s.startsWith(p)\<close> is \<open>prefix p s\<close> and \<open>s.includes(p)\<close> is \<open>sublist p s\<close>
  (a contiguous occurrence).
\<close>

definition nl :: string where
  "nl = [CHR 0x0A]"

text \<open>\<open>'='.repeat(80)\<close>\<close>

definition rule80 :: string where
  "rule80 = replicate 80 (CHR ''='')"

text \<open>\<open>s.split(c)\<close> for a one-character separator: \<open>''.split('/')\<close> is \<open>['']\<close>.\<close>

fun split :: "char \<Rightarrow> string \<Rightarrow> string list" where
  "split c [] = [[]]"
| "split c (x # xs) =
     (if x = c then [] # split c xs
      else (case split c xs of
              [] \<Rightarrow> [[x]]
            | h # t \<Rightarrow> (x # h) # t))"

text \<open>\<open>xs.indexOf(x)\<close>: the index of the first element equal to \<open>x\<close>, or \<open>-1\<close>.\<close>

fun indexOf :: "'a list \<Rightarrow> 'a \<Rightarrow> int" where
  "indexOf [] x = - 1"
| "indexOf (y # ys) x =
     (if y = x then 0
      else (let i = indexOf ys x in if i = - 1 then - 1 else i + 1))"

text \<open>\<open>xs[i]\<close>: \<open>undefined\<close> (here \<open>None\<close>) out of range.\<close>

definition elem_at :: "'a list \<Rightarrow> int \<Rightarrow> 'a option" where
  "elem_at xs i = (if 0 \<le> i \<and> i < int (length xs) then Some (xs ! nat i) else None)"

text \<open>Truthiness of a value that is a string or \<open>undefined\<close>: only the non-empty string.\<close>

definition truthy :: "string option \<Rightarrow> bool" where
  "truthy v = (case v of None \<Rightarrow> False | Some s \<Rightarrow> s \<noteq> [])"

text \<open>A string or \<open>undefined\<close> inside a template literal.\<close>

definition js_str :: "string option \<Rightarrow> string" where
  "js_str v = (case v of None \<Rightarrow> ''undefined'' | Some s \<Rightarrow> s)"

text \<open>
  \<open>s.trim()\<close>, on the ASCII white space and line terminators (tab, LF, VT, FF, CR,
  space). The white space beyond ASCII that JavaScript strips as well (the no-break
  space, the byte order mark and the other Unicode separators) stays in place here; no
  statement below depends on which characters are stripped.
\<close>

definition is_space :: "char \<Rightarrow> bool" where
  "is_space c = (c \<in> set [CHR 0x09, CHR 0x0A, CHR 0x0B, CHR 0x0C, CHR 0x0D, CHR 0x20])"

definition trim :: "string \<Rightarrow> string" where
  "trim s = rev (dropWhile is_space (rev (dropWhile is_space s)))"

text \<open>A non-negative integer inside a template literal: its decimal digits.\<close>

definition digit :: "nat \<Rightarrow> char" where
  "digit d = char_of (48 + d)"

function show_nat :: "nat \<Rightarrow> string" where
  "show_nat n = (if n < 10 then [digit n] else show_nat (n div 10) @ [digit (n mod 10)])"
  by pat_completeness auto
termination
  by (relation "measure id") auto

text \<open>
  A JavaScript \<open>Set\<close> of strings iterates in insertion order, so it is the list of its
  elements in that order, without duplicates: \<open>s.add(x)\<close> appends \<open>x\<close> unless it is
  there, \<open>s.has(x)\<close> is \<open>x \<in> set s\<close>, \<open>s.size\<close> is \<open>length s\<close>, and
  \<open>Array.from(s)\<close> is the list itself.
\<close>

definition Set_add :: "'a list \<Rightarrow> 'a \<Rightarrow> 'a list" where
  "Set_add s x = (if x \<in> set s then s else s @ [x])"

text \<open>\<open>[...new Set(xs)]\<close>: the first occurrence of each element, in order.\<close>

definition Set_of :: "'a list \<Rightarrow> 'a list" where
  "Set_of xs = foldl Set_add [] xs"

section \<open>The platform: URL parsing and the network\<close>

text \<open>
  \<open>new URL(s)\<close> is the browser's parser, not code of the application: it is a parameter
  \<open>URL\<close> of the model, \<open>None\<close> where the constructor throws, and otherwise the three
  properties that \<open>app.js\<close> reads (\<open>protocol\<close> with its colon, \<open>host\<close> with the port
  when there is one, \<open>pathname\<close>).
\<close>

record url =
  protocol :: string
  host :: string
  pathname :: string

type_synonym url_parser = "string \<Rightarrow> url option"

section \<open>parseWikiUrl\<close>

record parse_result =
  wikiServer :: "string option"
  spaceName :: "string option"
  isValid :: bool

text \<open>\<open>{ isValid: false }\<close>: the other two properties are absent.\<close>

definition invalid :: parse_result where
  "invalid = \<lparr>wikiServer = None, spaceName = None, isValid = False\<rparr>"

definition parseWikiUrl :: "url_parser \<Rightarrow> string \<Rightarrow> parse_result" where
  "parseWikiUrl URL u =
     (case URL u of
        None \<Rightarrow> invalid
      | Some urlObj \<Rightarrow>
          (let pathParts = split (CHR ''/'') (pathname urlObj);
               spacesIndex = indexOf pathParts ''spaces''
           in if spacesIndex \<noteq> - 1 \<and> truthy (elem_at pathParts (spacesIndex + 1))
              then \<lparr>wikiServer = Some (protocol urlObj @ ''//'' @ host urlObj),
                    spaceName = elem_at pathParts (spacesIndex + 1),
                    isValid = True\<rparr>
              else invalid))"

section \<open>fetchPageContent\<close>

text \<open>
  The network and the HTML parser are the platform's too. A request either fails before
  there is a response (\<open>fetch(url)\<close> rejects, or the body cannot be read), with a
  message, or gives a response, of which the code reads \<open>ok\<close>, \<open>status\<close>,
  \<open>statusText\<close> and the body. Of the parsed body, once the non-content elements are
  removed, it reads \<open>innerText\<close>, \<open>textContent\<close> and, for each \<open>a[href]\<close> in document
  order, \<open>new URL(a.href, url).href\<close>, which is \<open>None\<close> where that constructor throws
  (the \<open>null\<close> of the inner \<open>catch\<close>). The status line of the page (\<open>showStatus\<close>) and
  the pauses between requests are left out: nothing that the crawl computes reads them.
\<close>

record document =
  innerText :: string
  textContent :: string
  hrefs :: "string option list"

datatype response =
  Rejected string
| Response bool nat string document

type_synonym fetcher = "string \<Rightarrow> response"

record page =
  pageText :: string
  links :: "string list"
  success :: bool
  error :: "string option"

text \<open>
  The state of \<open>app\<close> that the crawl uses, and the trace of the requests sent: every
  call of \<open>fetchPageContent\<close> appends its URL to \<open>requests\<close>. Nothing reads the
  trace; it is there to state what was fetched and how often.
\<close>

record app =
  visitedUrls :: "string list"
  processedSpaces :: "string list"
  requests :: "string list"

text \<open>
  Every exception inside the \<open>try\<close> (a rejected \<open>fetch\<close>, the \<open>throw\<close> on a response
  that is not \<open>ok\<close>) ends in the \<open>catch\<close>, which returns the failure object.
\<close>

definition fetchPageContent :: "fetcher \<Rightarrow> string \<Rightarrow> app \<Rightarrow> page \<times> app" where
  "fetchPageContent fetch u st =
     ((case fetch u of
         Rejected msg \<Rightarrow> \<lparr>pageText = [], links = [], success = False, error = Some msg\<rparr>
       | Response ok status statusText doc \<Rightarrow>
           if \<not> ok
           then \<lparr>pageText = [], links = [], success = False,
                 error = Some (''HTTP '' @ show_nat status @ '': '' @ statusText)\<rparr>
           else
             (let textContent = (if innerText doc \<noteq> [] then innerText doc else textContent doc);
                  links = filter (\<lambda>link. prefix ''http'' link)
                            (concat (map (\<lambda>l. case l of None \<Rightarrow> [] | Some h \<Rightarrow> [h]) (hrefs doc)))
              in \<lparr>pageText = trim textContent, links = Set_of links, success = True,
                   error = None\<rparr>)),
      st\<lparr>requests := requests st @ [u]\<rparr>)"

section \<open>crawlWikiSpace\<close>

text \<open>The local variables of one crawl.\<close>

record crawl =
  pagesToVisit :: "string list"
  spacePages :: "string list"
  externalLinks :: "string list"
  otherSpaceLinks :: "string list"
  contextContent :: string

text \<open>
  The callback of \<open>links.forEach\<close> (lines 151 to 170). \<open>server\<close> is the crawl's
  \<open>wikiServer\<close> and \<open>visited\<close> is \<open>this.visitedUrls\<close>, which the callback only reads.
\<close>

definition categorize ::
  "url_parser \<Rightarrow> string option \<Rightarrow> string \<Rightarrow> string list \<Rightarrow> crawl \<Rightarrow> string \<Rightarrow> crawl" where
  "categorize URL server spacePrefix visited c link =
     (if prefix spacePrefix link then
        (if link \<notin> set (spacePages c) \<and> link \<notin> set visited
         then c\<lparr>spacePages := Set_add (spacePages c) link,
                pagesToVisit := pagesToVisit c @ [link]\<rparr>
         else c)
      else if sublist ''/wiki/spaces/'' link then
        (let linkParse = parseWikiUrl URL link
         in if isValid linkParse \<and> wikiServer linkParse = server
            then c\<lparr>otherSpaceLinks := Set_add (otherSpaceLinks c) link\<rparr>
            else c\<lparr>externalLinks := Set_add (externalLinks c) link\<rparr>)
      else if prefix ''http'' link then
        c\<lparr>externalLinks := Set_add (externalLinks c) link\<rparr>
      else c)"

text \<open>The body of the Phase 1 loop for a page that is not visited yet (lines 142 to 170).\<close>

fun visitPage ::
  "url_parser \<Rightarrow> fetcher \<Rightarrow> string option \<Rightarrow> string \<Rightarrow> string \<Rightarrow> crawl \<times> app \<Rightarrow> crawl \<times> app" where
  "visitPage URL fetch server spacePrefix currentUrl (c, st) =
     (let st1 = st\<lparr>visitedUrls := Set_add (visitedUrls st) currentUrl\<rparr>;
          r = fetchPageContent fetch currentUrl st1;
          p = fst r;
          st2 = snd r;
          c1 = (if success p \<and> pageText p \<noteq> []
                then c\<lparr>contextContent := contextContent c @
                         nl @ ''--- PAGE: '' @ currentUrl @ '' ---'' @ nl @ nl @
                         pageText p @ nl\<rparr>
                else c)
      in (foldl (categorize URL server spacePrefix (visitedUrls st2)) c1 (links p), st2))"

text \<open>
  Phase 1, the \<open>while (pagesToVisit.length > 0)\<close> loop. It has no bound, so it is a
  partial function: \<open>None\<close> is the loop that never ends.
\<close>

partial_function (option) phase1 ::
  "url_parser \<Rightarrow> fetcher \<Rightarrow> string option \<Rightarrow> string \<Rightarrow> crawl \<times> app \<Rightarrow> (crawl \<times> app) option" where
  "phase1 URL fetch server spacePrefix cs =
     (case pagesToVisit (fst cs) of
        [] \<Rightarrow> Some cs
      | currentUrl # rest \<Rightarrow>
          (let c = (fst cs)\<lparr>pagesToVisit := rest\<rparr>; st = snd cs
           in if currentUrl \<in> set (visitedUrls st)
              then phase1 URL fetch server spacePrefix (c, st)
              else phase1 URL fetch server spacePrefix
                     (visitPage URL fetch server spacePrefix currentUrl (c, st))))"

declare phase1.simps [code]

text \<open>
  The body of the \<open>for\<close> loops of Phase 2 and Phase 3 (lines 180 to 190 and 197 to 207),
  which differ in the label of the section only (and in the pause).
\<close>

fun fetchLinked :: "fetcher \<Rightarrow> string \<Rightarrow> string \<times> app \<Rightarrow> string \<Rightarrow> string \<times> app" where
  "fetchLinked fetch label (content, st) link =
     (if link \<notin> set (visitedUrls st) then
        (let st1 = st\<lparr>visitedUrls := Set_add (visitedUrls st) link\<rparr>;
             r = fetchPageContent fetch link st1;
             p = fst r;
             st2 = snd r
         in (if success p \<and> pageText p \<noteq> []
             then content @ nl @ ''--- '' @ label @ '': '' @ link @ '' ---'' @ nl @ nl @
                  pageText p @ nl
             else content, st2))
      else (content, st))"

fun phase2 :: "fetcher \<Rightarrow> crawl \<times> app \<Rightarrow> crawl \<times> app" where
  "phase2 fetch (c, st) =
     (let r = foldl (fetchLinked fetch ''LINKED PAGE (Other Space)'') (contextContent c, st)
                (take 20 (otherSpaceLinks c))
      in (c\<lparr>contextContent := fst r\<rparr>, snd r))"

fun phase3 :: "fetcher \<Rightarrow> crawl \<times> app \<Rightarrow> crawl \<times> app" where
  "phase3 fetch (c, st) =
     (let r = foldl (fetchLinked fetch ''EXTERNAL LINKED PAGE'') (contextContent c, st)
                (take 10 (externalLinks c))
      in (c\<lparr>contextContent := fst r\<rparr>, snd r))"

text \<open>
  \<open>crawlWikiSpace\<close> returns \<open>None\<close> when Phase 1 never ends, \<open>Inl\<close> the message of the
  error it throws, and otherwise \<open>Inr\<close> the text it returns with the state it leaves.
\<close>

definition invalidFormat :: string where
  "invalidFormat =
     ''Invalid Wiki URL format. Expected: https://<server>/wiki/spaces/<space>/pages/...''"

definition spaceHeader :: "string option \<Rightarrow> string option \<Rightarrow> string" where
  "spaceHeader server space =
     nl @ nl @ rule80 @ nl @
     ''WIKI SPACE: '' @ js_str space @ nl @
     ''Server: '' @ js_str server @ nl @
     rule80 @ nl @ nl"

text \<open>The local variables as Phase 1 finds them (lines 120 to 130).\<close>

definition newCrawl :: "string \<Rightarrow> string option \<Rightarrow> string option \<Rightarrow> crawl" where
  "newCrawl initialUrl server space =
     \<lparr>pagesToVisit = [initialUrl], spacePages = [initialUrl],
      externalLinks = [], otherSpaceLinks = [],
      contextContent = spaceHeader server space\<rparr>"

definition crawlWikiSpace ::
  "url_parser \<Rightarrow> fetcher \<Rightarrow> string \<Rightarrow> app \<Rightarrow> (string + string \<times> app) option" where
  "crawlWikiSpace URL fetch initialUrl st =
     (let parseResult = parseWikiUrl URL initialUrl
      in if \<not> isValid parseResult then Some (Inl invalidFormat)
         else
           (let server = wikiServer parseResult;
                space = spaceName parseResult;
                spaceKey = js_str server @ ''::'' @ js_str space
            in if spaceKey \<in> set (processedSpaces st) then Some (Inr ([], st))
               else
                 (let st1 = st\<lparr>processedSpaces := Set_add (processedSpaces st) spaceKey\<rparr>;
                      spacePrefix = js_str server @ ''/wiki/spaces/'' @ js_str space @ ''/'';
                      c = newCrawl initialUrl server space
                  in case phase1 URL fetch server spacePrefix (c, st1) of
                       None \<Rightarrow> None
                     | Some cs \<Rightarrow>
                         (let r = phase3 fetch (phase2 fetch cs)
                          in Some (Inr (contextContent (fst r), snd r))))))"

section \<open>collectContext\<close>

text \<open>
  The \<open>for\<close> loop over the resources (lines 229 to 238): \<open>resources\<close> are the \<open>url\<close>
  properties of \<open>validResources\<close>, in order.
\<close>

fun processResources ::
  "url_parser \<Rightarrow> fetcher \<Rightarrow> string list \<Rightarrow> string \<times> app \<Rightarrow> (string \<times> app) option" where
  "processResources URL fetch [] (fullContext, st) = Some (fullContext, st)"
| "processResources URL fetch (r # rs) (fullContext, st) =
     (case crawlWikiSpace URL fetch r st of
        None \<Rightarrow> None
      | Some (Inl message) \<Rightarrow>
          processResources URL fetch rs
            (fullContext @ nl @ nl @ ''ERROR processing '' @ r @ '': '' @ message @ nl @ nl, st)
      | Some (Inr (content, st')) \<Rightarrow>
          processResources URL fetch rs (fullContext @ content, st'))"

definition noResources :: string where
  "noResources = ''Please add at least one valid Wiki URL''"

text \<open>
  The header and the trailing lines. \<open>now\<close> is \<open>new Date().toISOString()\<close> and
  \<open>userAgent\<close> is \<open>navigator.userAgent\<close>.
\<close>

definition header :: "string \<Rightarrow> string \<Rightarrow> nat \<Rightarrow> string" where
  "header now userAgent n =
     ''=== CORPORATE DOCUMENTATION CONTEXT ==='' @ nl @
     ''Generated: '' @ now @ nl @
     ''Total Resources: '' @ show_nat n @ nl @
     ''User: '' @ userAgent @ nl @ nl"

definition summary :: "app \<Rightarrow> string" where
  "summary st =
     nl @ nl @ rule80 @ nl @
     ''Total pages processed: '' @ show_nat (length (visitedUrls st)) @ nl @
     rule80 @ nl"

definition collectContext ::
  "url_parser \<Rightarrow> fetcher \<Rightarrow> string \<Rightarrow> string \<Rightarrow> string list \<Rightarrow> app \<Rightarrow> (string + string \<times> app) option" where
  "collectContext URL fetch now userAgent resources st =
     (let validResources = filter (\<lambda>r. trim r \<noteq> []) resources
      in if length validResources = 0 then Some (Inl noResources)
         else
           (let st1 = st\<lparr>visitedUrls := [], processedSpaces := []\<rparr>;
                fullContext = header now userAgent (length validResources)
            in case processResources URL fetch validResources (fullContext, st1) of
                 None \<Rightarrow> None
               | Some (fullContext', st2) \<Rightarrow> Some (Inr (fullContext' @ summary st2, st2))))"

section \<open>A small wiki, for concrete runs\<close>

text \<open>
  Space \<open>T\<close> on server \<open>https://w\<close> has the pages \<open>home\<close> and \<open>guide\<close>; space
  \<open>O\<close> has \<open>other5\<close> and \<open>other6\<close>; \<open>ext\<close> is a page of another server. \<open>URL0\<close>
  lists what \<open>new URL\<close> returns for the strings used below and throws on anything else;
  \<open>root\<close> is the address of space \<open>T\<close> itself. \<open>web0\<close> serves these six pages,
  answers 404 for \<open>about\<close> and rejects every other request.
\<close>

definition home :: string where "home = ''https://w/wiki/spaces/T/pages/1''"
definition guide :: string where "guide = ''https://w/wiki/spaces/T/pages/2''"
definition other5 :: string where "other5 = ''https://w/wiki/spaces/O/pages/5''"
definition other6 :: string where "other6 = ''https://w/wiki/spaces/O/pages/6''"
definition ext :: string where "ext = ''https://e/a''"
definition root :: string where "root = ''https://w/wiki/spaces/T''"
definition about :: string where "about = ''https://w/about''"
definition twice :: string where "twice = ''https://w/spaces//spaces/X''"

definition URL0 :: url_parser where
  "URL0 = map_of
     [(home, \<lparr>protocol = ''https:'', host = ''w'', pathname = ''/wiki/spaces/T/pages/1''\<rparr>),
      (guide, \<lparr>protocol = ''https:'', host = ''w'', pathname = ''/wiki/spaces/T/pages/2''\<rparr>),
      (other5, \<lparr>protocol = ''https:'', host = ''w'', pathname = ''/wiki/spaces/O/pages/5''\<rparr>),
      (other6, \<lparr>protocol = ''https:'', host = ''w'', pathname = ''/wiki/spaces/O/pages/6''\<rparr>),
      (ext, \<lparr>protocol = ''https:'', host = ''e'', pathname = ''/a''\<rparr>),
      (root, \<lparr>protocol = ''https:'', host = ''w'', pathname = ''/wiki/spaces/T''\<rparr>),
      (about, \<lparr>protocol = ''https:'', host = ''w'', pathname = ''/about''\<rparr>),
      (twice, \<lparr>protocol = ''https:'', host = ''w'', pathname = ''/spaces//spaces/X''\<rparr>)]"

definition served :: "string \<Rightarrow> string option list \<Rightarrow> response" where
  "served t hs = Response True 200 ''OK'' \<lparr>innerText = t, textContent = t, hrefs = hs\<rparr>"

definition web0 :: fetcher where
  "web0 u =
     (if u = home then served ''Home'' [Some guide, Some other5, Some ext, Some root]
      else if u = guide then served ''Guide'' [Some home]
      else if u = other5 then served ''Five'' [Some home]
      else if u = other6 then served ''Six'' [Some home, Some ext]
      else if u = ext then served ''Ext'' []
      else if u = root then served ''Root'' []
      else if u = about
        then Response False 404 ''Not Found''
               \<lparr>innerText = ''Gone'', textContent = ''Gone'', hrefs = [Some guide]\<rparr>
      else Rejected ''Failed to fetch'')"

definition app0 :: app where
  "app0 = \<lparr>visitedUrls = [], processedSpaces = [], requests = []\<rparr>"

text \<open>The state that the crawl of space \<open>T\<close> from \<open>home\<close> leaves.\<close>

definition seenT :: app where
  "seenT = \<lparr>visitedUrls = [home, guide, other5, root, ext],
            processedSpaces = [''https://w::T''],
            requests = [home, guide, other5, root, ext]\<rparr>"

declare visitPage.simps [simp del] fetchLinked.simps [simp del] phase2.simps [simp del]
  phase3.simps [simp del]

section \<open>The URL classifier\<close>

lemma indexOf_ge: "- 1 \<le> indexOf xs x"
  by (induction xs) (auto simp: Let_def)

lemma indexOf_notin: "indexOf xs x = - 1 \<longleftrightarrow> x \<notin> set xs"
proof (induction xs)
  case Nil
  then show ?case by simp
next
  case (Cons a xs)
  then show ?case using indexOf_ge [of xs x] by (auto simp: Let_def)
qed

lemma indexOf_first: "x \<notin> set pre \<Longrightarrow> indexOf (pre @ x # rest) x = int (length pre)"
  by (induction pre) (auto simp: Let_def)

lemma elem_at_after: "elem_at (pre @ x # rest) (int (length pre) + 1) = (case rest of [] \<Rightarrow> None | y # _ \<Rightarrow> Some y)"
  by (auto simp: elem_at_def nth_append split: list.splits)

text \<open>
  Claim C5, as amended. \<open>parseWikiUrl\<close> looks at the first path segment equal to
  \<open>spaces\<close> only: when \<open>new URL\<close> accepts the string and that first segment is followed
  by a non-empty segment, the result is valid, with the server \<open>protocol//host\<close> and that
  segment as the space; in every other case (the constructor throws, no such segment, or
  the first one is followed by nothing or by an empty segment) the result is
  \<open>{ isValid: false }\<close>, without server or space.
\<close>

theorem parseWikiUrl_first_spaces:
  "(\<forall>urlObj pre sp rest.
       URL u = Some urlObj \<and>
       split (CHR ''/'') (pathname urlObj) = pre @ ''spaces'' # sp # rest \<and>
       ''spaces'' \<notin> set pre \<and> sp \<noteq> [] \<longrightarrow>
       parseWikiUrl URL u =
         \<lparr>wikiServer = Some (protocol urlObj @ ''//'' @ host urlObj),
            spaceName = Some sp, isValid = True\<rparr>) \<and>
   ((\<nexists>urlObj pre sp rest.
       URL u = Some urlObj \<and>
       split (CHR ''/'') (pathname urlObj) = pre @ ''spaces'' # sp # rest \<and>
       ''spaces'' \<notin> set pre \<and> sp \<noteq> []) \<longrightarrow>
       parseWikiUrl URL u = invalid)"
proof (intro conjI allI impI)
  fix urlObj pre sp rest
  assume a: "URL u = Some urlObj \<and>
       split (CHR ''/'') (pathname urlObj) = pre @ ''spaces'' # sp # rest \<and>
       ''spaces'' \<notin> set pre \<and> sp \<noteq> []"
  then have i: "indexOf (split (CHR ''/'') (pathname urlObj)) ''spaces'' = int (length pre)"
    by (simp add: indexOf_first)
  have e: "elem_at (split (CHR ''/'') (pathname urlObj)) (int (length pre) + 1) = Some sp"
    using a by (simp add: elem_at_after)
  show "parseWikiUrl URL u =
         \<lparr>wikiServer = Some (protocol urlObj @ ''//'' @ host urlObj),
            spaceName = Some sp, isValid = True\<rparr>"
    using a i e by (simp add: parseWikiUrl_def Let_def truthy_def)
next
  assume n: "\<nexists>urlObj pre sp rest.
       URL u = Some urlObj \<and>
       split (CHR ''/'') (pathname urlObj) = pre @ ''spaces'' # sp # rest \<and>
       ''spaces'' \<notin> set pre \<and> sp \<noteq> []"
  show "parseWikiUrl URL u = invalid"
  proof (cases "URL u")
    case None
    then show ?thesis by (simp add: parseWikiUrl_def)
  next
    case (Some urlObj)
    let ?parts = "split (CHR ''/'') (pathname urlObj)"
    show ?thesis
    proof (cases "''spaces'' \<in> set ?parts")
      case False
      then show ?thesis using Some by (simp add: parseWikiUrl_def Let_def indexOf_notin)
    next
      case True
      then obtain pre rest where p: "?parts = pre @ ''spaces'' # rest" "''spaces'' \<notin> set pre"
        by (meson split_list_first)
      then have i: "indexOf ?parts ''spaces'' = int (length pre)"
        by (simp add: indexOf_first)
      have "\<not> truthy (elem_at ?parts (int (length pre) + 1))"
      proof (cases rest)
        case Nil
        then show ?thesis using p by (simp add: elem_at_after truthy_def)
      next
        case (Cons sp rest')
        have "sp = []"
        proof (rule ccontr)
          assume "sp \<noteq> []"
          then have "URL u = Some urlObj \<and>
            split (CHR ''/'') (pathname urlObj) = pre @ ''spaces'' # sp # rest' \<and>
            ''spaces'' \<notin> set pre \<and> sp \<noteq> []"
            using Some p Cons by simp
          then show False using n by blast
        qed
        then show ?thesis using p Cons by (simp add: elem_at_after truthy_def)
      qed
      then show ?thesis using Some i by (simp add: parseWikiUrl_def Let_def)
    qed
  qed
qed

theorem parseWikiUrl_first_spaces_witness:
  "parseWikiUrl URL0 home =
     \<lparr>wikiServer = Some ''https://w'', spaceName = Some ''T'', isValid = True\<rparr> \<and>
   parseWikiUrl URL0 about = invalid"
proof
  have u: "URL0 home = Some \<lparr>protocol = ''https:'', host = ''w'', pathname = ''/wiki/spaces/T/pages/1''\<rparr>"
    by code_simp
  have s: "split (CHR ''/'') ''/wiki/spaces/T/pages/1'' = [[], ''wiki''] @ ''spaces'' # ''T'' # [''pages'', ''1'']"
    by code_simp
  show "parseWikiUrl URL0 home =
     \<lparr>wikiServer = Some ''https://w'', spaceName = Some ''T'', isValid = True\<rparr>"
    using parseWikiUrl_first_spaces [of URL0 home, THEN conjunct1, rule_format,
        of "\<lparr>protocol = ''https:'', host = ''w'', pathname = ''/wiki/spaces/T/pages/1''\<rparr>"
           "[[], ''wiki'']" "''T''" "[''pages'', ''1'']"] u s
    by simp
next
  have u: "URL0 about = Some \<lparr>protocol = ''https:'', host = ''w'', pathname = ''/about''\<rparr>"
    by code_simp
  have s: "split (CHR ''/'') ''/about'' = [[], ''about'']"
    by code_simp
  have "\<nexists>urlObj pre sp rest.
       URL0 about = Some urlObj \<and>
       split (CHR ''/'') (pathname urlObj) = pre @ ''spaces'' # sp # rest \<and>
       ''spaces'' \<notin> set pre \<and> sp \<noteq> []"
  proof
    assume "\<exists>urlObj pre sp rest.
       URL0 about = Some urlObj \<and>
       split (CHR ''/'') (pathname urlObj) = pre @ ''spaces'' # sp # rest \<and>
       ''spaces'' \<notin> set pre \<and> sp \<noteq> []"
    then obtain urlObj pre sp rest where o: "URL0 about = Some urlObj"
       "split (CHR ''/'') (pathname urlObj) = pre @ ''spaces'' # sp # rest"
      by blast
    from o(1) u have "pathname urlObj = ''/about''" by auto
    with o(2) s have "[[], ''about''] = pre @ ''spaces'' # sp # rest" by simp
    then have "''spaces'' \<in> set [[], ''about'']" by (metis in_set_conv_decomp)
    then show False by simp
  qed
  then show "parseWikiUrl URL0 about = invalid"
    using parseWikiUrl_first_spaces [of URL0 about] by blast
qed

text \<open>
  The claim as written takes any \<open>spaces\<close> segment followed by a non-empty one. In
  \<open>/spaces//spaces/X\<close> the second one is, and the URL is rejected all the same, because
  the first is followed by an empty segment.
\<close>

theorem parseWikiUrl_later_spaces_counterexample:
  "URL0 twice = Some \<lparr>protocol = ''https:'', host = ''w'', pathname = ''/spaces//spaces/X''\<rparr> \<and>
   split (CHR ''/'') ''/spaces//spaces/X'' = [[], ''spaces'', []] @ ''spaces'' # ''X'' # [] \<and>
   \<not> isValid (parseWikiUrl URL0 twice)"
  by code_simp


section \<open>Failed fetches\<close>

lemma fetchPageContent_requests:
  "snd (fetchPageContent fetch u st) = st\<lparr>requests := requests st @ [u]\<rparr>"
  by (simp add: fetchPageContent_def)

lemma fetchPageContent_failed:
  assumes "fetch u = Rejected msg \<or> fetch u = Response False status statusText doc"
  shows "pageText (fst (fetchPageContent fetch u st)) = []"
    and "links (fst (fetchPageContent fetch u st)) = []"
    and "\<not> success (fst (fetchPageContent fetch u st))"
  using assms by (auto simp: fetchPageContent_def)

text \<open>
  Claim C10. When the request is rejected, or the response is not \<open>ok\<close>,
  \<open>fetchPageContent\<close> returns no text, no links and \<open>success = false\<close>. The Phase 1
  step for such a page then changes nothing of the crawl but the visited set (and the
  trace): no section is appended, no link is categorized, nothing is enqueued, and the
  loop goes on with the rest of the queue. Phases 2 and 3 append nothing for it either.
\<close>

theorem failed_fetch_contributes_nothing:
  assumes "fetch u = Rejected msg \<or> fetch u = Response False status statusText doc"
  shows "pageText (fst (fetchPageContent fetch u st)) = [] \<and>
         links (fst (fetchPageContent fetch u st)) = [] \<and>
         \<not> success (fst (fetchPageContent fetch u st)) \<and>
         visitPage URL fetch server spacePrefix u (c, st) =
           (c, st\<lparr>visitedUrls := Set_add (visitedUrls st) u, requests := requests st @ [u]\<rparr>) \<and>
         (u \<notin> set (visitedUrls st) \<longrightarrow>
            phase1 URL fetch server spacePrefix (c\<lparr>pagesToVisit := u # rest\<rparr>, st) =
            phase1 URL fetch server spacePrefix
              (c\<lparr>pagesToVisit := rest\<rparr>,
               st\<lparr>visitedUrls := Set_add (visitedUrls st) u, requests := requests st @ [u]\<rparr>)) \<and>
         (u \<notin> set (visitedUrls st) \<longrightarrow>
            fetchLinked fetch label (content, st) u =
              (content,
               st\<lparr>visitedUrls := Set_add (visitedUrls st) u, requests := requests st @ [u]\<rparr>))"
proof -
  have f: "pageText (fst (fetchPageContent fetch u s)) = []"
    "links (fst (fetchPageContent fetch u s)) = []"
    "\<not> success (fst (fetchPageContent fetch u s))" for s
    using fetchPageContent_failed [of fetch u msg status statusText doc s, OF assms]
    by blast+
  have v: "visitPage URL fetch server spacePrefix u (c', st) =
           (c', st\<lparr>visitedUrls := Set_add (visitedUrls st) u, requests := requests st @ [u]\<rparr>)"
    for c'
    by (simp add: visitPage.simps Let_def f fetchPageContent_requests)
  have p: "phase1 URL fetch server spacePrefix (c\<lparr>pagesToVisit := u # rest\<rparr>, st) =
            phase1 URL fetch server spacePrefix
              (c\<lparr>pagesToVisit := rest\<rparr>,
               st\<lparr>visitedUrls := Set_add (visitedUrls st) u, requests := requests st @ [u]\<rparr>)"
    if "u \<notin> set (visitedUrls st)"
    using that by (subst phase1.simps) (simp add: v Let_def)
  have l: "fetchLinked fetch label (content, st) u =
              (content,
               st\<lparr>visitedUrls := Set_add (visitedUrls st) u, requests := requests st @ [u]\<rparr>)"
    if "u \<notin> set (visitedUrls st)"
    using that by (simp add: fetchLinked.simps Let_def f fetchPageContent_requests)
  show ?thesis using f v p l by blast
qed

theorem failed_fetch_contributes_nothing_witness:
  "web0 about = Response False 404 ''Not Found''
       \<lparr>innerText = ''Gone'', textContent = ''Gone'', hrefs = [Some guide]\<rparr> \<and>
   pageText (fst (fetchPageContent web0 about app0)) = [] \<and>
   links (fst (fetchPageContent web0 about app0)) = [] \<and>
   \<not> success (fst (fetchPageContent web0 about app0)) \<and>
   fetchLinked web0 ''EXTERNAL LINKED PAGE'' ([], app0) about =
     ([], \<lparr>visitedUrls = [about], processedSpaces = [], requests = [about]\<rparr>)"
proof -
  have w: "web0 about = Response False 404 ''Not Found''
       \<lparr>innerText = ''Gone'', textContent = ''Gone'', hrefs = [Some guide]\<rparr>"
    by code_simp
  have n: "about \<notin> set (visitedUrls app0)"
    by (simp add: app0_def)
  have a: "app0\<lparr>visitedUrls := Set_add (visitedUrls app0) about, requests := requests app0 @ [about]\<rparr>
            = \<lparr>visitedUrls = [about], processedSpaces = [], requests = [about]\<rparr>"
    by (simp add: app0_def Set_add_def)
  show ?thesis
    using failed_fetch_contributes_nothing [where fetch = web0 and u = about and status = 404
        and statusText = "''Not Found''" and st = app0 and content = "[]"
        and label = "''EXTERNAL LINKED PAGE''"
        and doc = "\<lparr>innerText = ''Gone'', textContent = ''Gone'', hrefs = [Some guide]\<rparr>"]
      w n a
    by simp
qed

section \<open>Seeds that fail\<close>


lemma crawlWikiSpace_invalid:
  "\<not> isValid (parseWikiUrl URL r) \<Longrightarrow> crawlWikiSpace URL fetch r st = Some (Inl invalidFormat)"
  by (simp add: crawlWikiSpace_def)

lemma crawlWikiSpace_throws:
  "crawlWikiSpace URL fetch r st = Some (Inl message) \<Longrightarrow>
     message = invalidFormat \<and> \<not> isValid (parseWikiUrl URL r)"
  by (auto simp: crawlWikiSpace_def Let_def split: if_splits option.splits)




section \<open>What is requested is what is visited\<close>

lemma Set_add_new: "x \<notin> set s \<Longrightarrow> Set_add s x = s @ [x]"
  by (simp add: Set_add_def)

lemma set_Set_add: "set (Set_add s x) = insert x (set s)"
  by (auto simp: Set_add_def)

lemma distinct_Set_add: "distinct s \<Longrightarrow> distinct (Set_add s x)"
  by (simp add: Set_add_def)

lemma visitPage_state:
  "snd (visitPage URL fetch server spacePrefix u (c, st)) =
     st\<lparr>visitedUrls := Set_add (visitedUrls st) u, requests := requests st @ [u]\<rparr>"
  by (simp add: visitPage.simps Let_def fetchPageContent_requests)

lemma fetchLinked_state:
  "snd (fetchLinked fetch label cs u) =
     (if u \<in> set (visitedUrls (snd cs)) then snd cs
      else (snd cs)\<lparr>visitedUrls := Set_add (visitedUrls (snd cs)) u,
                    requests := requests (snd cs) @ [u]\<rparr>)"
  by (cases cs) (simp add: fetchLinked.simps Let_def fetchPageContent_requests)

lemma phase2_state:
  "snd (phase2 fetch cs) =
     snd (foldl (fetchLinked fetch ''LINKED PAGE (Other Space)'') (contextContent (fst cs), snd cs)
            (take 20 (otherSpaceLinks (fst cs))))"
  by (cases cs) (simp add: phase2.simps Let_def)

lemma phase3_state:
  "snd (phase3 fetch cs) =
     snd (foldl (fetchLinked fetch ''EXTERNAL LINKED PAGE'') (contextContent (fst cs), snd cs)
            (take 10 (externalLinks (fst cs))))"
  by (cases cs) (simp add: phase3.simps Let_def)

text \<open>The two ways in which \<open>crawlWikiSpace\<close> returns a text.\<close>

lemma crawlWikiSpace_cases [consumes 1, case_names skipped crawled]:
  assumes "crawlWikiSpace URL fetch u st = Some (Inr (content, st'))"
    and "\<lbrakk>isValid (parseWikiUrl URL u);
          js_str (wikiServer (parseWikiUrl URL u)) @ ''::'' @ js_str (spaceName (parseWikiUrl URL u))
            \<in> set (processedSpaces st);
          content = []; st' = st\<rbrakk> \<Longrightarrow> Q"
    and "\<And>cs. \<lbrakk>isValid (parseWikiUrl URL u);
          js_str (wikiServer (parseWikiUrl URL u)) @ ''::'' @ js_str (spaceName (parseWikiUrl URL u))
            \<notin> set (processedSpaces st);
          phase1 URL fetch (wikiServer (parseWikiUrl URL u))
            (js_str (wikiServer (parseWikiUrl URL u)) @ ''/wiki/spaces/'' @
             js_str (spaceName (parseWikiUrl URL u)) @ ''/'')
            (newCrawl u (wikiServer (parseWikiUrl URL u)) (spaceName (parseWikiUrl URL u)),
             st\<lparr>processedSpaces := Set_add (processedSpaces st)
                (js_str (wikiServer (parseWikiUrl URL u)) @ ''::'' @
                 js_str (spaceName (parseWikiUrl URL u)))\<rparr>) = Some cs;
          content = contextContent (fst (phase3 fetch (phase2 fetch cs)));
          st' = snd (phase3 fetch (phase2 fetch cs))\<rbrakk> \<Longrightarrow> Q"
  shows Q
  using assms
  by (auto simp: crawlWikiSpace_def Let_def split: if_splits option.splits)

text \<open>
  The induction rule of the loop, for a run that ends: one case for the empty queue, one
  for a page that is skipped and one for a page that is visited.
\<close>

lemma phase1_induct [consumes 1, case_names empty skip visit]:
  assumes run: "phase1 URL fetch server spacePrefix cs = Some r"
    and empty: "\<And>cs. pagesToVisit (fst cs) = [] \<Longrightarrow> P cs cs"
    and skip: "\<And>cs u rest r.
      pagesToVisit (fst cs) = u # rest \<Longrightarrow> u \<in> set (visitedUrls (snd cs)) \<Longrightarrow>
      phase1 URL fetch server spacePrefix (fst cs\<lparr>pagesToVisit := rest\<rparr>, snd cs) = Some r \<Longrightarrow>
      P (fst cs\<lparr>pagesToVisit := rest\<rparr>, snd cs) r \<Longrightarrow> P cs r"
    and visit: "\<And>cs u rest r.
      pagesToVisit (fst cs) = u # rest \<Longrightarrow> u \<notin> set (visitedUrls (snd cs)) \<Longrightarrow>
      phase1 URL fetch server spacePrefix
        (visitPage URL fetch server spacePrefix u (fst cs\<lparr>pagesToVisit := rest\<rparr>, snd cs)) = Some r \<Longrightarrow>
      P (visitPage URL fetch server spacePrefix u (fst cs\<lparr>pagesToVisit := rest\<rparr>, snd cs)) r \<Longrightarrow>
      P cs r"
  shows "P cs r"
proof -
  have "URL = URL \<longrightarrow> fetch = fetch \<longrightarrow> server = server \<longrightarrow> spacePrefix = spacePrefix \<longrightarrow>
        phase1 URL fetch server spacePrefix cs = Some r \<and> P cs r"
  proof (rule phase1.raw_induct [where P = "\<lambda>a b c d cs r.
        a = URL \<longrightarrow> b = fetch \<longrightarrow> c = server \<longrightarrow> d = spacePrefix \<longrightarrow>
        phase1 URL fetch server spacePrefix cs = Some r \<and> P cs r", OF _ run])
    fix rec a b c d cs r
    assume IH: "\<And>a b c d cs r. rec a b c d cs = Some r \<Longrightarrow>
        a = URL \<longrightarrow> b = fetch \<longrightarrow> c = server \<longrightarrow> d = spacePrefix \<longrightarrow>
        phase1 URL fetch server spacePrefix cs = Some r \<and> P cs r"
    assume body: "(case pagesToVisit (fst cs) of
          [] \<Rightarrow> Some cs
        | currentUrl # rest \<Rightarrow>
            let c' = fst cs\<lparr>pagesToVisit := rest\<rparr>; st = snd cs
            in if currentUrl \<in> set (visitedUrls st) then rec a b c d (c', st)
               else rec a b c d (visitPage a b c d currentUrl (c', st))) = Some r"
    show "a = URL \<longrightarrow> b = fetch \<longrightarrow> c = server \<longrightarrow> d = spacePrefix \<longrightarrow>
        phase1 URL fetch server spacePrefix cs = Some r \<and> P cs r"
    proof (intro impI)
      assume eq: "a = URL" "b = fetch" "c = server" "d = spacePrefix"
      show "phase1 URL fetch server spacePrefix cs = Some r \<and> P cs r"
      proof (cases "pagesToVisit (fst cs)")
        case Nil
        with body have "r = cs" by simp
        moreover have "phase1 URL fetch server spacePrefix cs = Some cs"
          using Nil by (subst phase1.simps) simp
        ultimately show ?thesis using empty [OF Nil] by simp
      next
        case (Cons u rest)
        show ?thesis
        proof (cases "u \<in> set (visitedUrls (snd cs))")
          case True
          with body Cons eq
          have "rec URL fetch server spacePrefix (fst cs\<lparr>pagesToVisit := rest\<rparr>, snd cs) = Some r"
            by (simp add: Let_def)
          from IH [OF this]
          have r: "phase1 URL fetch server spacePrefix (fst cs\<lparr>pagesToVisit := rest\<rparr>, snd cs) = Some r"
            and p: "P (fst cs\<lparr>pagesToVisit := rest\<rparr>, snd cs) r"
            by simp_all
          have "phase1 URL fetch server spacePrefix cs = Some r"
            using Cons True r by (subst phase1.simps) (simp add: Let_def)
          then show ?thesis using skip [OF Cons True r p] by simp
        next
          case False
          let ?v = "visitPage URL fetch server spacePrefix u (fst cs\<lparr>pagesToVisit := rest\<rparr>, snd cs)"
          from False body Cons eq
          have "rec URL fetch server spacePrefix ?v = Some r"
            by (simp add: Let_def)
          from IH [OF this]
          have r: "phase1 URL fetch server spacePrefix ?v = Some r" and p: "P ?v r"
            by simp_all
          have "phase1 URL fetch server spacePrefix cs = Some r"
            using Cons False r by (subst phase1.simps) (simp add: Let_def)
          then show ?thesis using visit [OF Cons False r p] by simp
        qed
      qed
    qed
  qed
  then show ?thesis by simp
qed

lemma phase1_traced:
  assumes "phase1 URL fetch server spacePrefix cs = Some r"
    and "requests (snd cs) = q @ visitedUrls (snd cs)"
    and "distinct (visitedUrls (snd cs))"
  shows "requests (snd r) = q @ visitedUrls (snd r) \<and> distinct (visitedUrls (snd r))"
  using assms
proof (induction rule: phase1_induct)
  case (empty cs)
  then show ?case by simp
next
  case (skip cs u rest r)
  then show ?case by simp
next
  case (visit cs u rest r)
  then show ?case by (simp add: visitPage_state Set_add_new)
qed

lemma fetchLinked_fold_traced:
  assumes "requests (snd cs) = q @ visitedUrls (snd cs)"
    and "distinct (visitedUrls (snd cs))"
  shows "requests (snd (foldl (fetchLinked fetch label) cs xs)) =
           q @ visitedUrls (snd (foldl (fetchLinked fetch label) cs xs)) \<and>
         distinct (visitedUrls (snd (foldl (fetchLinked fetch label) cs xs)))"
  using assms
proof (induction xs arbitrary: cs)
  case Nil
  then show ?case by simp
next
  case (Cons x xs)
  have "requests (snd (fetchLinked fetch label cs x)) =
          q @ visitedUrls (snd (fetchLinked fetch label cs x))"
    using Cons.prems by (simp add: fetchLinked_state Set_add_new)
  moreover have "distinct (visitedUrls (snd (fetchLinked fetch label cs x)))"
    using Cons.prems by (simp add: fetchLinked_state Set_add_new)
  ultimately show ?case using Cons.IH by simp
qed

lemma crawlWikiSpace_traced:
  assumes "crawlWikiSpace URL fetch u st = Some (Inr (content, st'))"
    and "requests st = q @ visitedUrls st"
    and "distinct (visitedUrls st)"
  shows "requests st' = q @ visitedUrls st' \<and> distinct (visitedUrls st')"
  using assms(1)
proof (cases rule: crawlWikiSpace_cases)
  case skipped
  then show ?thesis using assms by simp
next
  case (crawled cs)
  have 1: "requests (snd cs) = q @ visitedUrls (snd cs) \<and> distinct (visitedUrls (snd cs))"
    using phase1_traced [OF crawled(3), of q] assms(2,3) by simp
  have 2: "requests (snd (phase2 fetch cs)) = q @ visitedUrls (snd (phase2 fetch cs)) \<and>
           distinct (visitedUrls (snd (phase2 fetch cs)))"
    using 1 unfolding phase2_state by (intro fetchLinked_fold_traced) simp_all
  have "requests (snd (phase3 fetch (phase2 fetch cs))) =
          q @ visitedUrls (snd (phase3 fetch (phase2 fetch cs))) \<and>
        distinct (visitedUrls (snd (phase3 fetch (phase2 fetch cs))))"
    using 2 unfolding phase3_state by (intro fetchLinked_fold_traced) simp_all
  then show ?thesis using crawled by simp
qed

lemma processResources_traced:
  assumes "processResources URL fetch rs (d, st) = Some (d', st')"
    and "requests st = q @ visitedUrls st"
    and "distinct (visitedUrls st)"
  shows "requests st' = q @ visitedUrls st' \<and> distinct (visitedUrls st')"
  using assms
proof (induction rs arbitrary: d st)
  case Nil
  then show ?case by simp
next
  case (Cons r rs)
  show ?case
  proof (cases "crawlWikiSpace URL fetch r st")
    case None
    with Cons.prems show ?thesis by simp
  next
    case (Some a)
    show ?thesis
    proof (cases a)
      case (Inl message)
      with Some Cons.prems show ?thesis by (auto dest: Cons.IH)
    next
      case (Inr b)
      obtain content st1 where b: "b = (content, st1)" by (cases b)
      with Some Inr Cons.prems(1)
      have p: "processResources URL fetch rs (d @ content, st1) = Some (d', st')" by simp
      from Some Inr b have "crawlWikiSpace URL fetch r st = Some (Inr (content, st1))" by simp
      from crawlWikiSpace_traced [OF this Cons.prems(2,3)] Cons.IH [OF p]
      show ?thesis by simp
    qed
  qed
qed

lemma collectContext_cases [consumes 1, case_names collected]:
  assumes "collectContext URL fetch now userAgent resources st = Some (Inr (doc, st'))"
    and "\<And>d. \<lbrakk>filter (\<lambda>r. trim r \<noteq> []) resources \<noteq> [];
          processResources URL fetch (filter (\<lambda>r. trim r \<noteq> []) resources)
            (header now userAgent (length (filter (\<lambda>r. trim r \<noteq> []) resources)),
             st\<lparr>visitedUrls := [], processedSpaces := []\<rparr>) = Some (d, st');
          doc = d @ summary st'\<rbrakk> \<Longrightarrow> Q"
  shows Q
  using assms
  by (auto simp: collectContext_def Let_def split: if_splits option.splits prod.splits)

lemma collectContext_traced:
  assumes "collectContext URL fetch now userAgent resources st = Some (Inr (doc, st'))"
  shows "requests st' = requests st @ visitedUrls st' \<and> distinct (visitedUrls st')"
  using assms
proof (cases rule: collectContext_cases)
  case (collected d)
  from processResources_traced [OF collected(2), of "requests st"]
  show ?thesis by simp
qed

text \<open>
  Claim C1. In a run of \<open>collectContext\<close> that returns a document, the requests sent
  during the run are exactly the URLs of the visited set, in the order in which they were
  added, and no URL occurs twice among them: every request, in each of the three phases
  and for every seed, is guarded by the same visited set, which is reset only when the run
  starts. A section of page text is only ever appended right after such a request.
\<close>

theorem each_url_fetched_at_most_once:
  assumes "collectContext URL fetch now userAgent resources st = Some (Inr (doc, st'))"
  shows "requests st' = requests st @ visitedUrls st' \<and> distinct (visitedUrls st')"
  using assms by (rule collectContext_traced)

theorem each_url_fetched_at_most_once_witness:
  "\<exists>doc st'. collectContext URL0 web0 [] [] [home, other6, guide] app0 = Some (Inr (doc, st')) \<and>
     requests st' = [home, guide, other5, root, ext, other6] \<and>
     visitedUrls st' = [home, guide, other5, root, ext, other6]"
proof -
  have "case collectContext URL0 web0 [] [] [home, other6, guide] app0 of
          Some (Inr (doc, st')) \<Rightarrow> visitedUrls st' = [home, guide, other5, root, ext, other6]
        | _ \<Rightarrow> False"
    by code_simp
  then obtain doc st' where
    c: "collectContext URL0 web0 [] [] [home, other6, guide] app0 = Some (Inr (doc, st'))"
    and v: "visitedUrls st' = [home, guide, other5, root, ext, other6]"
    by (auto split: option.splits sum.splits)
  from each_url_fetched_at_most_once [OF c] v
  have "requests st' = [home, guide, other5, root, ext, other6]"
    by (simp add: app0_def)
  with c v show ?thesis by blast
qed


section \<open>Spaces already processed\<close>

lemma phase1_processedSpaces:
  assumes "phase1 URL fetch server spacePrefix cs = Some r"
  shows "processedSpaces (snd r) = processedSpaces (snd cs)"
  using assms
  by (induction rule: phase1_induct) (simp_all add: visitPage_state)

lemma fetchLinked_fold_processedSpaces:
  "processedSpaces (snd (foldl (fetchLinked fetch label) cs xs)) = processedSpaces (snd cs)"
  by (induction xs arbitrary: cs) (simp_all add: fetchLinked_state)

lemma crawlWikiSpace_processedSpaces:
  assumes "crawlWikiSpace URL fetch u st = Some (Inr (content, st'))"
  shows "processedSpaces st' =
           Set_add (processedSpaces st)
             (js_str (wikiServer (parseWikiUrl URL u)) @ ''::'' @
              js_str (spaceName (parseWikiUrl URL u)))"
  using assms
proof (cases rule: crawlWikiSpace_cases)
  case skipped
  then show ?thesis by (simp add: Set_add_def)
next
  case (crawled cs)
  then show ?thesis
    using phase1_processedSpaces [OF crawled(3)]
    by (simp add: phase2_state phase3_state fetchLinked_fold_processedSpaces)
qed

lemma processResources_processedSpaces:
  assumes "processResources URL fetch rs (d, st) = Some (d', st')"
  shows "set (processedSpaces st) \<subseteq> set (processedSpaces st')"
  using assms
proof (induction rs arbitrary: d st)
  case Nil
  then show ?case by simp
next
  case (Cons r rs)
  show ?case
  proof (cases "crawlWikiSpace URL fetch r st")
    case None
    with Cons.prems show ?thesis by simp
  next
    case (Some a)
    show ?thesis
    proof (cases a)
      case (Inl message)
      with Some Cons.prems show ?thesis by (auto dest: Cons.IH)
    next
      case (Inr b)
      obtain content st1 where b: "b = (content, st1)" by (cases b)
      with Some Inr Cons.prems(1)
      have p: "processResources URL fetch rs (d @ content, st1) = Some (d', st')" by simp
      from Some Inr b have "crawlWikiSpace URL fetch r st = Some (Inr (content, st1))" by simp
      from crawlWikiSpace_processedSpaces [OF this] Cons.IH [OF p]
      show ?thesis by (auto simp: set_Set_add)
    qed
  qed
qed

lemma parseWikiUrl_isValid:
  "isValid (parseWikiUrl URL u) \<longleftrightarrow> wikiServer (parseWikiUrl URL u) \<noteq> None"
  by (simp add: parseWikiUrl_def invalid_def Let_def split: option.splits)

text \<open>
  Claim C6. Once \<open>crawlWikiSpace\<close> has returned for a seed, and whatever seeds were
  processed after it, a later seed that \<open>parseWikiUrl\<close> gives the same server and the
  same space returns the empty string and leaves the state as it is: no request is sent
  and nothing is marked visited. The loop over the seeds goes on with the document
  unchanged.
\<close>

theorem processed_space_is_skipped:
  assumes "crawlWikiSpace URL fetch earlier st0 = Some (Inr (c1, st1))"
    and "processResources URL fetch between (d1, st1) = Some (d2, st2)"
    and "wikiServer (parseWikiUrl URL later) = wikiServer (parseWikiUrl URL earlier)"
    and "spaceName (parseWikiUrl URL later) = spaceName (parseWikiUrl URL earlier)"
  shows "crawlWikiSpace URL fetch later st2 = Some (Inr ([], st2)) \<and>
         processResources URL fetch (later # rest) (d2, st2) =
           processResources URL fetch rest (d2, st2)"
proof -
  let ?key = "js_str (wikiServer (parseWikiUrl URL earlier)) @ ''::'' @
              js_str (spaceName (parseWikiUrl URL earlier))"
  have "isValid (parseWikiUrl URL earlier)"
    using assms(1) by (cases rule: crawlWikiSpace_cases)
  then have v: "isValid (parseWikiUrl URL later)"
    using assms(3) by (simp add: parseWikiUrl_isValid)
  have "?key \<in> set (processedSpaces st1)"
    using crawlWikiSpace_processedSpaces [OF assms(1)] by (simp add: set_Set_add)
  then have "?key \<in> set (processedSpaces st2)"
    using processResources_processedSpaces [OF assms(2)] by blast
  then have "crawlWikiSpace URL fetch later st2 = Some (Inr ([], st2))"
    using v assms(3,4) by (simp add: crawlWikiSpace_def Let_def)
  then show ?thesis by simp
qed

theorem processed_space_is_skipped_witness:
  "\<exists>c1 st1 d2 st2.
     crawlWikiSpace URL0 web0 home app0 = Some (Inr (c1, st1)) \<and>
     processResources URL0 web0 [other6] ([], st1) = Some (d2, st2) \<and>
     crawlWikiSpace URL0 web0 guide st2 = Some (Inr ([], st2)) \<and>
     guide \<in> set (requests st2)"
proof -
  have "case crawlWikiSpace URL0 web0 home app0 of
          Some (Inr (c1, st1)) \<Rightarrow>
            (case processResources URL0 web0 [other6] ([], st1) of
               Some (d2, st2) \<Rightarrow> guide \<in> set (requests st2)
             | None \<Rightarrow> False)
        | _ \<Rightarrow> False"
    by code_simp
  then obtain c1 st1 d2 st2 where
    a: "crawlWikiSpace URL0 web0 home app0 = Some (Inr (c1, st1))"
    and b: "processResources URL0 web0 [other6] ([], st1) = Some (d2, st2)"
    and g: "guide \<in> set (requests st2)"
    by (auto simp del: processResources.simps split: option.splits sum.splits)
  have s: "wikiServer (parseWikiUrl URL0 guide) = wikiServer (parseWikiUrl URL0 home)"
    by code_simp
  have n: "spaceName (parseWikiUrl URL0 guide) = spaceName (parseWikiUrl URL0 home)"
    by code_simp
  from processed_space_is_skipped [OF a b s n]
  have "crawlWikiSpace URL0 web0 guide st2 = Some (Inr ([], st2))" by blast
  with a b g show ?thesis by blast
qed

section \<open>How many links Phases 2 and 3 fetch\<close>

lemma fetchLinked_fold_count:
  "length (requests (snd (foldl (fetchLinked fetch label) cs xs))) =
     length (requests (snd cs)) + card (set xs - set (visitedUrls (snd cs)))"
proof (induction xs arbitrary: cs)
  case Nil
  then show ?case by simp
next
  case (Cons x xs)
  show ?case
  proof (cases "x \<in> set (visitedUrls (snd cs))")
    case True
    then have "set (x # xs) - set (visitedUrls (snd cs)) = set xs - set (visitedUrls (snd cs))"
      by auto
    then show ?thesis using True Cons.IH [of "fetchLinked fetch label cs x"]
      by (simp add: fetchLinked_state)
  next
    case False
    let ?V = "set (visitedUrls (snd cs))"
    have "set (x # xs) - ?V = insert x (set xs - insert x ?V)"
      using False by auto
    moreover have "x \<notin> set xs - insert x ?V" by simp
    ultimately have "card (set (x # xs) - ?V) = Suc (card (set xs - insert x ?V))"
      by (simp del: set_simps)
    then show ?thesis using False Cons.IH [of "fetchLinked fetch label cs x"]
      by (simp add: fetchLinked_state set_Set_add)
  qed
qed

lemma card_take_diff: "card (set (take n xs) - V) \<le> min n (length xs)"
proof -
  have "card (set (take n xs) - V) \<le> card (set (take n xs))"
    by (simp add: card_mono)
  also have "\<dots> \<le> length (take n xs)" by (rule card_length)
  finally show ?thesis by simp
qed

text \<open>
  Claim C4, as amended. Phase 2 sends one request for each link among the first 20 of the
  other-space set that is not in the visited set when the phase starts, and Phase 3 one for
  each link among the first 10 of the external set that is not visited when it starts.
  These numbers are at most \<open>min(20, |otherSpaceLinks|)\<close> and \<open>min(10, |externalLinks|)\<close>.
\<close>

theorem phases_fetch_the_unvisited:
  "length (requests (snd (phase2 fetch cs))) =
     length (requests (snd cs)) +
     card (set (take 20 (otherSpaceLinks (fst cs))) - set (visitedUrls (snd cs))) \<and>
   card (set (take 20 (otherSpaceLinks (fst cs))) - set (visitedUrls (snd cs)))
     \<le> min 20 (length (otherSpaceLinks (fst cs))) \<and>
   length (requests (snd (phase3 fetch cs))) =
     length (requests (snd cs)) +
     card (set (take 10 (externalLinks (fst cs))) - set (visitedUrls (snd cs))) \<and>
   card (set (take 10 (externalLinks (fst cs))) - set (visitedUrls (snd cs)))
     \<le> min 10 (length (externalLinks (fst cs)))"
  using card_take_diff [of 20 "otherSpaceLinks (fst cs)" "set (visitedUrls (snd cs))"]
    card_take_diff [of 10 "externalLinks (fst cs)" "set (visitedUrls (snd cs))"]
  by (simp add: phase2_state phase3_state fetchLinked_fold_count)

text \<open>
  The claim as written gives \<open>min(20, 1) = 1\<close> and \<open>min(10, 1) = 1\<close> for the crawl of
  space \<open>O\<close> from \<open>other6\<close> that follows the crawl of space \<open>T\<close> from \<open>home\<close>: its
  only other-space link is \<open>home\<close> and its only external link is \<open>ext\<close>. Both were
  visited by the first crawl, so Phases 2 and 3 fetch nothing.
\<close>

theorem phases_fetch_fewer_counterexample:
  "map_option snd (processResources URL0 web0 [home] ([], app0)) = Some seenT \<and>
   map_option (map_sum id (requests \<circ> snd)) (crawlWikiSpace URL0 web0 other6 seenT) =
     Some (Inr (requests seenT @ [other6])) \<and>
   (case phase1 URL0 web0 (Some ''https://w'') ''https://w/wiki/spaces/O/''
           (newCrawl other6 (Some ''https://w'') (Some ''O''),
            seenT\<lparr>processedSpaces := Set_add (processedSpaces seenT) ''https://w::O''\<rparr>) of
      None \<Rightarrow> False
    | Some cs \<Rightarrow>
        otherSpaceLinks (fst cs) = [home] \<and> externalLinks (fst cs) = [ext] \<and>
        length (requests (snd (phase2 web0 cs))) - length (requests (snd cs)) = 0 \<and>
        min 20 (length (otherSpaceLinks (fst cs))) = 1 \<and>
        length (requests (snd (phase3 web0 (phase2 web0 cs)))) -
          length (requests (snd (phase2 web0 cs))) = 0 \<and>
        min 10 (length (externalLinks (fst (phase2 web0 cs)))) = 1)"
  by code_simp


section \<open>The trailing summary\<close>

text \<open>
  Claim C3, as amended. A document that \<open>collectContext\<close> returns ends with the rule,
  the line \<open>Total pages processed: n\<close> and the rule again, where \<open>n\<close> is the number of
  distinct URLs requested during the run (whether or not the fetch succeeded). The
  number of spaces is not in these lines.
\<close>

theorem document_ends_with_page_total:
  assumes "collectContext URL fetch now userAgent resources st = Some (Inr (doc, st'))"
  shows "suffix
           (nl @ nl @ rule80 @ nl @
            ''Total pages processed: '' @
            show_nat (card (set (drop (length (requests st)) (requests st')))) @ nl @
            rule80 @ nl)
           doc"
proof -
  from collectContext_traced [OF assms]
  have "drop (length (requests st)) (requests st') = visitedUrls st'"
    and "distinct (visitedUrls st')"
    by simp_all
  then have n: "card (set (drop (length (requests st)) (requests st'))) = length (visitedUrls st')"
    by (simp add: distinct_card)
  from assms show ?thesis
  proof (cases rule: collectContext_cases)
    case (collected d)
    then have "doc = d @ summary st'" by simp
    then show ?thesis unfolding n by (simp add: summary_def suffix_def)
  qed
qed

theorem document_ends_with_page_total_witness:
  "\<exists>doc st'. collectContext URL0 web0 [] [] [other6] app0 = Some (Inr (doc, st')) \<and>
     requests st' = [other6, home, ext] \<and>
     suffix (nl @ nl @ rule80 @ nl @ ''Total pages processed: 3'' @ nl @ rule80 @ nl) doc"
proof -
  have "case collectContext URL0 web0 [] [] [other6] app0 of
          Some (Inr (doc, st')) \<Rightarrow> requests st' = [other6, home, ext]
        | _ \<Rightarrow> False"
    by code_simp
  then obtain doc st' where
    c: "collectContext URL0 web0 [] [] [other6] app0 = Some (Inr (doc, st'))"
    and r: "requests st' = [other6, home, ext]"
    by (auto split: option.splits sum.splits)
  have "card (set (drop (length (requests app0)) [other6, home, ext])) = 3"
    by code_simp
  moreover have "show_nat 3 = ''3''"
    by code_simp
  ultimately show ?thesis
    using document_ends_with_page_total [OF c] c r by auto
qed

text \<open>
  The claim as written has the number of spaces in the summary too. The runs for the
  seeds \<open>other6\<close> and \<open>other6, home\<close> process one space and two spaces, and their
  documents end with the same lines.
\<close>

theorem summary_without_spaces_counterexample:
  "(case collectContext URL0 web0 [] [] [other6] app0 of
      Some (Inr (doc, st')) \<Rightarrow>
        suffix (nl @ nl @ rule80 @ nl @ ''Total pages processed: 3'' @ nl @ rule80 @ nl) doc \<and>
        length (processedSpaces st') = 1
    | _ \<Rightarrow> False) \<and>
   (case collectContext URL0 web0 [] [] [other6, home] app0 of
      Some (Inr (doc, st')) \<Rightarrow>
        suffix (nl @ nl @ rule80 @ nl @ ''Total pages processed: 3'' @ nl @ rule80 @ nl) doc \<and>
        length (processedSpaces st') = 2
    | _ \<Rightarrow> False)"
  by code_simp

section \<open>Links into the crawl's own space\<close>

text \<open>
  What the code does check before a link enters the other-space set: the link does not
  begin with the prefix of the crawl, it contains \<open>/wiki/spaces/\<close>, and it is classified
  as valid with the server of the crawl. The space is not compared.
\<close>

lemma categorize_otherSpaceLinks:
  assumes "x \<in> set (otherSpaceLinks (categorize URL server spacePrefix visited c l))"
  shows "x \<in> set (otherSpaceLinks c) \<or>
         (x = l \<and> \<not> prefix spacePrefix x \<and> sublist ''/wiki/spaces/'' x \<and>
          isValid (parseWikiUrl URL x) \<and> wikiServer (parseWikiUrl URL x) = server)"
  using assms
  by (auto simp: categorize_def Let_def set_Set_add split: if_splits)

lemma categorize_fold_otherSpaceLinks:
  assumes "x \<in> set (otherSpaceLinks (foldl (categorize URL server spacePrefix visited) c ls))"
  shows "x \<in> set (otherSpaceLinks c) \<or>
         (x \<in> set ls \<and> \<not> prefix spacePrefix x \<and> sublist ''/wiki/spaces/'' x \<and>
          isValid (parseWikiUrl URL x) \<and> wikiServer (parseWikiUrl URL x) = server)"
  using assms
proof (induction ls arbitrary: c)
  case Nil
  then show ?case by simp
next
  case (Cons l ls)
  from Cons.IH [of "categorize URL server spacePrefix visited c l"] Cons.prems
  have "x \<in> set (otherSpaceLinks (categorize URL server spacePrefix visited c l)) \<or>
         (x \<in> set ls \<and> \<not> prefix spacePrefix x \<and> sublist ''/wiki/spaces/'' x \<and>
          isValid (parseWikiUrl URL x) \<and> wikiServer (parseWikiUrl URL x) = server)"
    by simp
  then show ?case using categorize_otherSpaceLinks [of x URL server spacePrefix visited c l]
    by auto
qed

lemma visitPage_otherSpaceLinks:
  assumes "x \<in> set (otherSpaceLinks (fst (visitPage URL fetch server spacePrefix u (c, st))))"
  shows "x \<in> set (otherSpaceLinks c) \<or>
         (\<not> prefix spacePrefix x \<and> sublist ''/wiki/spaces/'' x \<and>
          isValid (parseWikiUrl URL x) \<and> wikiServer (parseWikiUrl URL x) = server)"
proof -
  let ?st1 = "st\<lparr>visitedUrls := Set_add (visitedUrls st) u\<rparr>"
  let ?p = "fst (fetchPageContent fetch u ?st1)"
  let ?c1 = "if success ?p \<and> pageText ?p \<noteq> []
             then c\<lparr>contextContent := contextContent c @
                      nl @ ''--- PAGE: '' @ u @ '' ---'' @ nl @ nl @ pageText ?p @ nl\<rparr>
             else c"
  have v: "fst (visitPage URL fetch server spacePrefix u (c, st)) =
        foldl (categorize URL server spacePrefix (visitedUrls (snd (fetchPageContent fetch u ?st1))))
          ?c1 (links ?p)"
    by (simp add: visitPage.simps Let_def)
  have c1: "otherSpaceLinks ?c1 = otherSpaceLinks c"
    by simp
  from assms categorize_fold_otherSpaceLinks [of x URL server spacePrefix
      "visitedUrls (snd (fetchPageContent fetch u ?st1))" ?c1 "links ?p"]
  show ?thesis unfolding v c1 by blast
qed

lemma phase1_otherSpaceLinks:
  assumes "phase1 URL fetch server spacePrefix cs = Some r"
    and "x \<in> set (otherSpaceLinks (fst r))"
  shows "x \<in> set (otherSpaceLinks (fst cs)) \<or>
         (\<not> prefix spacePrefix x \<and> sublist ''/wiki/spaces/'' x \<and>
          isValid (parseWikiUrl URL x) \<and> wikiServer (parseWikiUrl URL x) = server)"
  using assms
proof (induction rule: phase1_induct)
  case (empty cs)
  then show ?case by simp
next
  case (skip cs u rest r)
  then show ?case by simp
next
  case (visit cs u rest r)
  from visit.IH [OF visit.prems]
    visitPage_otherSpaceLinks [of x URL fetch server spacePrefix u
      "fst cs\<lparr>pagesToVisit := rest\<rparr>" "snd cs"]
  show ?case by auto
qed

text \<open>
  Claim C2 does not hold of the code. The link \<open>root\<close> does not begin with the prefix of
  the crawl (it lacks the final slash), contains \<open>/wiki/spaces/\<close>, and is classified as
  valid with the server and the space of the crawl itself. The crawl of space \<open>T\<close> from
  \<open>home\<close> puts it into the other-space set, and Phase 2 fetches it as a page of another
  space.
\<close>

theorem own_space_link_among_other_spaces:
  "parseWikiUrl URL0 home =
     \<lparr>wikiServer = Some ''https://w'', spaceName = Some ''T'', isValid = True\<rparr> \<and>
   parseWikiUrl URL0 root =
     \<lparr>wikiServer = Some ''https://w'', spaceName = Some ''T'', isValid = True\<rparr> \<and>
   sublist ''/wiki/spaces/'' root \<and>
   (case phase1 URL0 web0 (Some ''https://w'') ''https://w/wiki/spaces/T/''
           (newCrawl home (Some ''https://w'') (Some ''T''),
            app0\<lparr>processedSpaces := Set_add (processedSpaces app0) ''https://w::T''\<rparr>) of
      None \<Rightarrow> False
    | Some cs \<Rightarrow> otherSpaceLinks (fst cs) = [other5, root]) \<and>
   (case collectContext URL0 web0 [] [] [home] app0 of
      Some (Inr (doc, st')) \<Rightarrow>
        sublist (nl @ ''--- LINKED PAGE (Other Space): https://w/wiki/spaces/T ---'' @ nl @ nl @
                 ''Root'' @ nl) doc
    | _ \<Rightarrow> False)"
  by code_simp


section \<open>Two runs over the same seeds\<close>

text \<open>
  What a crawl returns depends on the state through \<open>visitedUrls\<close> and
  \<open>processedSpaces\<close> only, not through the trace.
\<close>

lemma fetchPageContent_page:
  "fst (fetchPageContent fetch u st) = fst (fetchPageContent fetch u st2)"
  by (simp add: fetchPageContent_def)

lemma visitPage_crawl:
  assumes "visitedUrls st2 = visitedUrls st"
  shows "fst (visitPage URL fetch server spacePrefix u (c, st2)) =
         fst (visitPage URL fetch server spacePrefix u (c, st))"
  using assms fetchPageContent_page [of fetch u
      "st2\<lparr>visitedUrls := Set_add (visitedUrls st) u\<rparr>"
      "st\<lparr>visitedUrls := Set_add (visitedUrls st) u\<rparr>"]
  by (simp add: visitPage.simps Let_def fetchPageContent_requests)

lemma phase1_agree:
  assumes "phase1 URL fetch server spacePrefix cs = Some r"
    and "visitedUrls st2 = visitedUrls (snd cs)"
    and "processedSpaces st2 = processedSpaces (snd cs)"
  shows "\<exists>st2'. phase1 URL fetch server spacePrefix (fst cs, st2) = Some (fst r, st2') \<and>
           visitedUrls st2' = visitedUrls (snd r) \<and>
           processedSpaces st2' = processedSpaces (snd r)"
  using assms
proof (induction arbitrary: st2 rule: phase1_induct)
  case (empty cs)
  then have "phase1 URL fetch server spacePrefix (fst cs, st2) = Some (fst cs, st2)"
    by (subst phase1.simps) simp
  with empty show ?case by simp
next
  case (skip cs u rest r)
  from skip.IH [of st2] skip.prems obtain st2' where
    s: "phase1 URL fetch server spacePrefix (fst cs\<lparr>pagesToVisit := rest\<rparr>, st2) = Some (fst r, st2')"
      "visitedUrls st2' = visitedUrls (snd r)" "processedSpaces st2' = processedSpaces (snd r)"
    by auto
  have "phase1 URL fetch server spacePrefix (fst cs, st2) = Some (fst r, st2')"
    using skip.hyps(1,2) skip.prems s(1) by (subst phase1.simps) (simp add: Let_def)
  with s show ?case by blast
next
  case (visit cs u rest r)
  let ?c = "fst cs\<lparr>pagesToVisit := rest\<rparr>"
  let ?v = "visitPage URL fetch server spacePrefix u (?c, snd cs)"
  let ?w = "visitPage URL fetch server spacePrefix u (?c, st2)"
  have f: "fst ?w = fst ?v"
    using visit.prems(1) by (simp add: visitPage_crawl [of st2 "snd cs"])
  have "visitedUrls (snd ?w) = visitedUrls (snd ?v)"
    "processedSpaces (snd ?w) = processedSpaces (snd ?v)"
    using visit.prems by (simp_all add: visitPage_state)
  from visit.IH [OF this] obtain st2' where
    s: "phase1 URL fetch server spacePrefix (fst ?v, snd ?w) = Some (fst r, st2')"
      "visitedUrls st2' = visitedUrls (snd r)" "processedSpaces st2' = processedSpaces (snd r)"
    by auto
  have "(fst ?v, snd ?w) = ?w" using f by (metis prod.collapse)
  with s(1) have "phase1 URL fetch server spacePrefix ?w = Some (fst r, st2')" by simp
  then have "phase1 URL fetch server spacePrefix (fst cs, st2) = Some (fst r, st2')"
    using visit.hyps(1,2) visit.prems by (subst phase1.simps) (simp add: Let_def)
  with s show ?case by blast
qed

lemma fetchLinked_content:
  assumes "visitedUrls st2 = visitedUrls st"
  shows "fst (fetchLinked fetch label (content, st2) u) =
         fst (fetchLinked fetch label (content, st) u)"
  using assms fetchPageContent_page [of fetch u
      "st2\<lparr>visitedUrls := Set_add (visitedUrls st) u\<rparr>"
      "st\<lparr>visitedUrls := Set_add (visitedUrls st) u\<rparr>"]
  by (simp add: fetchLinked.simps Let_def)

lemma fetchLinked_fold_agree:
  assumes "fst b = fst a"
    and "visitedUrls (snd b) = visitedUrls (snd a)"
    and "processedSpaces (snd b) = processedSpaces (snd a)"
  shows "fst (foldl (fetchLinked fetch label) b xs) = fst (foldl (fetchLinked fetch label) a xs) \<and>
         visitedUrls (snd (foldl (fetchLinked fetch label) b xs)) =
           visitedUrls (snd (foldl (fetchLinked fetch label) a xs)) \<and>
         processedSpaces (snd (foldl (fetchLinked fetch label) b xs)) =
           processedSpaces (snd (foldl (fetchLinked fetch label) a xs))"
  using assms
proof (induction xs arbitrary: a b)
  case Nil
  then show ?case by simp
next
  case (Cons x xs)
  obtain ca sa where a: "a = (ca, sa)" by (cases a)
  obtain cb sb where b: "b = (cb, sb)" by (cases b)
  have 1: "fst (fetchLinked fetch label b x) = fst (fetchLinked fetch label a x)"
    using Cons.prems fetchLinked_content [of sb sa fetch label ca x]
    unfolding a b by simp
  have 2: "visitedUrls (snd (fetchLinked fetch label b x)) =
      visitedUrls (snd (fetchLinked fetch label a x))"
    using Cons.prems(2) by (simp add: fetchLinked_state)
  have 3: "processedSpaces (snd (fetchLinked fetch label b x)) =
      processedSpaces (snd (fetchLinked fetch label a x))"
    using Cons.prems(2,3) by (simp add: fetchLinked_state)
  from Cons.IH [OF 1 2 3] show ?case by simp
qed

lemma phase2_crawl:
  "fst (phase2 fetch cs) =
     (fst cs)\<lparr>contextContent :=
        fst (foldl (fetchLinked fetch ''LINKED PAGE (Other Space)'') (contextContent (fst cs), snd cs)
               (take 20 (otherSpaceLinks (fst cs))))\<rparr>"
  by (cases cs) (simp add: phase2.simps Let_def)

lemma phase3_crawl:
  "fst (phase3 fetch cs) =
     (fst cs)\<lparr>contextContent :=
        fst (foldl (fetchLinked fetch ''EXTERNAL LINKED PAGE'') (contextContent (fst cs), snd cs)
               (take 10 (externalLinks (fst cs))))\<rparr>"
  by (cases cs) (simp add: phase3.simps Let_def)

lemma phase2_agree:
  assumes "visitedUrls st2 = visitedUrls st" and "processedSpaces st2 = processedSpaces st"
  shows "fst (phase2 fetch (c, st2)) = fst (phase2 fetch (c, st)) \<and>
         visitedUrls (snd (phase2 fetch (c, st2))) = visitedUrls (snd (phase2 fetch (c, st))) \<and>
         processedSpaces (snd (phase2 fetch (c, st2))) =
           processedSpaces (snd (phase2 fetch (c, st)))"
  using fetchLinked_fold_agree [of "(contextContent c, st2)" "(contextContent c, st)" fetch
      "''LINKED PAGE (Other Space)''" "take 20 (otherSpaceLinks c)"] assms
  by (simp add: phase2_crawl phase2_state)

lemma phase3_agree:
  assumes "fst b = fst a" and "visitedUrls (snd b) = visitedUrls (snd a)"
    and "processedSpaces (snd b) = processedSpaces (snd a)"
  shows "fst (phase3 fetch b) = fst (phase3 fetch a) \<and>
         visitedUrls (snd (phase3 fetch b)) = visitedUrls (snd (phase3 fetch a)) \<and>
         processedSpaces (snd (phase3 fetch b)) = processedSpaces (snd (phase3 fetch a))"
  using fetchLinked_fold_agree [of "(contextContent (fst b), snd b)" "(contextContent (fst a), snd a)"
      fetch "''EXTERNAL LINKED PAGE''" "take 10 (externalLinks (fst a))"] assms
  by (simp add: phase3_crawl phase3_state)

lemma crawlWikiSpace_agree:
  assumes "crawlWikiSpace URL fetch u st = Some (Inr (content, st'))"
    and "visitedUrls st2 = visitedUrls st"
    and "processedSpaces st2 = processedSpaces st"
  shows "\<exists>st2'. crawlWikiSpace URL fetch u st2 = Some (Inr (content, st2')) \<and>
           visitedUrls st2' = visitedUrls st' \<and> processedSpaces st2' = processedSpaces st'"
  using assms(1)
proof (cases rule: crawlWikiSpace_cases)
  case skipped
  then show ?thesis using assms(2,3) by (simp add: crawlWikiSpace_def Let_def)
next
  case (crawled cs)
  let ?server = "wikiServer (parseWikiUrl URL u)"
  let ?space = "spaceName (parseWikiUrl URL u)"
  let ?key = "js_str ?server @ ''::'' @ js_str ?space"
  from phase1_agree [OF crawled(3), of "st2\<lparr>processedSpaces := Set_add (processedSpaces st2) ?key\<rparr>"]
    assms(2,3)
  obtain s where s: "phase1 URL fetch ?server (js_str ?server @ ''/wiki/spaces/'' @ js_str ?space @ ''/'')
      (newCrawl u ?server ?space, st2\<lparr>processedSpaces := Set_add (processedSpaces st2) ?key\<rparr>) =
      Some (fst cs, s)"
    "visitedUrls s = visitedUrls (snd cs)" "processedSpaces s = processedSpaces (snd cs)"
    by auto
  have 2: "fst (phase2 fetch (fst cs, s)) = fst (phase2 fetch cs) \<and>
         visitedUrls (snd (phase2 fetch (fst cs, s))) = visitedUrls (snd (phase2 fetch cs)) \<and>
         processedSpaces (snd (phase2 fetch (fst cs, s))) = processedSpaces (snd (phase2 fetch cs))"
    using phase2_agree [OF s(2,3), of fetch "fst cs"] by simp
  have 3: "fst (phase3 fetch (phase2 fetch (fst cs, s))) = fst (phase3 fetch (phase2 fetch cs)) \<and>
         visitedUrls (snd (phase3 fetch (phase2 fetch (fst cs, s)))) =
           visitedUrls (snd (phase3 fetch (phase2 fetch cs))) \<and>
         processedSpaces (snd (phase3 fetch (phase2 fetch (fst cs, s)))) =
           processedSpaces (snd (phase3 fetch (phase2 fetch cs)))"
    using 2 by (intro phase3_agree) simp_all
  have "crawlWikiSpace URL fetch u st2 =
          Some (Inr (contextContent (fst (phase3 fetch (phase2 fetch (fst cs, s)))),
                     snd (phase3 fetch (phase2 fetch (fst cs, s)))))"
    using crawled(1,2) assms(3) s(1) by (simp add: crawlWikiSpace_def Let_def)
  then show ?thesis using 3 crawled(4,5) by simp
qed

lemma processResources_agree:
  assumes "processResources URL fetch rs (d, st) = Some (d', st')"
    and "visitedUrls st2 = visitedUrls st"
    and "processedSpaces st2 = processedSpaces st"
  shows "\<exists>rest st2'. d' = d @ rest \<and>
           (\<forall>e. processResources URL fetch rs (e, st2) = Some (e @ rest, st2')) \<and>
           visitedUrls st2' = visitedUrls st' \<and> processedSpaces st2' = processedSpaces st'"
  using assms
proof (induction rs arbitrary: d st st2)
  case Nil
  then show ?case by simp
next
  case (Cons r rs)
  show ?case
  proof (cases "crawlWikiSpace URL fetch r st")
    case None
    with Cons.prems show ?thesis by simp
  next
    case (Some a)
    show ?thesis
    proof (cases a)
      case (Inl message)
      let ?m = "nl @ nl @ ''ERROR processing '' @ r @ '': '' @ message @ nl @ nl"
      from Some Inl have c: "crawlWikiSpace URL fetch r st = Some (Inl message)" by simp
      then have "crawlWikiSpace URL fetch r st2 = Some (Inl invalidFormat)" "message = invalidFormat"
        using crawlWikiSpace_throws [OF c] by (simp_all add: crawlWikiSpace_invalid)
      then have c2: "crawlWikiSpace URL fetch r st2 = Some (Inl message)" by simp
      from c Cons.prems(1)
      have "processResources URL fetch rs (d @ ?m, st) = Some (d', st')" by simp
      from Cons.IH [OF this Cons.prems(2,3)] obtain rest st2' where
        i: "d' = (d @ ?m) @ rest"
          "\<forall>e. processResources URL fetch rs (e, st2) = Some (e @ rest, st2')"
          "visitedUrls st2' = visitedUrls st'" "processedSpaces st2' = processedSpaces st'"
        by blast
      have "\<forall>e. processResources URL fetch (r # rs) (e, st2) = Some (e @ (?m @ rest), st2')"
        using c2 i(2) by simp
      moreover have "d' = d @ (?m @ rest)" using i(1) by simp
      ultimately show ?thesis using i(3,4) by blast
    next
      case (Inr b)
      obtain content st1 where b: "b = (content, st1)" by (cases b)
      with Some Inr have c: "crawlWikiSpace URL fetch r st = Some (Inr (content, st1))" by simp
      from crawlWikiSpace_agree [OF c Cons.prems(2,3)] obtain s where
        s: "crawlWikiSpace URL fetch r st2 = Some (Inr (content, s))"
          "visitedUrls s = visitedUrls st1" "processedSpaces s = processedSpaces st1"
        by blast
      from c Cons.prems(1)
      have "processResources URL fetch rs (d @ content, st1) = Some (d', st')" by simp
      from Cons.IH [OF this s(2,3)] obtain rest st2' where
        i: "d' = (d @ content) @ rest"
          "\<forall>e. processResources URL fetch rs (e, s) = Some (e @ rest, st2')"
          "visitedUrls st2' = visitedUrls st'" "processedSpaces st2' = processedSpaces st'"
        by blast
      have "\<forall>e. processResources URL fetch (r # rs) (e, st2) = Some (e @ (content @ rest), st2')"
        using s(1) i(2) by simp
      moreover have "d' = d @ (content @ rest)" using i(1) by simp
      ultimately show ?thesis using i(3,4) by blast
    qed
  qed
qed


text \<open>
  Claim C8. If a run of \<open>collectContext\<close> returns a document, then a run over the same
  resources against the same fetcher, started in any state (in particular in the state
  that the first run left) and at any other time, returns a document as well, and the two
  documents are the same text after the time stamp of the \<open>Generated:\<close> line. The second
  run ends with the same visited set and the same processed spaces.
\<close>

theorem collectContext_twice:
  assumes "collectContext URL fetch now1 userAgent resources st1 = Some (Inr (doc1, st1'))"
  shows "\<exists>rest st2'.
           doc1 = ''=== CORPORATE DOCUMENTATION CONTEXT ==='' @ nl @ ''Generated: '' @ now1 @ rest \<and>
           collectContext URL fetch now2 userAgent resources st2 =
             Some (Inr (''=== CORPORATE DOCUMENTATION CONTEXT ==='' @ nl @ ''Generated: '' @ now2 @ rest,
                        st2')) \<and>
           visitedUrls st2' = visitedUrls st1' \<and>
           processedSpaces st2' = processedSpaces st1'"
  using assms
proof (cases rule: collectContext_cases)
  case (collected d)
  let ?valid = "filter (\<lambda>r. trim r \<noteq> []) resources"
  let ?H = "nl @ ''Total Resources: '' @ show_nat (length ?valid) @ nl @
            ''User: '' @ userAgent @ nl @ nl"
  have h: "header now userAgent (length ?valid) =
             ''=== CORPORATE DOCUMENTATION CONTEXT ==='' @ nl @ ''Generated: '' @ now @ ?H" for now
    by (simp add: header_def)
  from processResources_agree [OF collected(2),
      of "st2\<lparr>visitedUrls := [], processedSpaces := []\<rparr>"]
  obtain rest0 st2' where
    r: "d = header now1 userAgent (length ?valid) @ rest0"
      "\<forall>e. processResources URL fetch ?valid (e, st2\<lparr>visitedUrls := [], processedSpaces := []\<rparr>) =
           Some (e @ rest0, st2')"
      "visitedUrls st2' = visitedUrls st1'" "processedSpaces st2' = processedSpaces st1'"
    by auto
  have s: "summary st2' = summary st1'"
    using r(3) by (simp add: summary_def)
  have "collectContext URL fetch now2 userAgent resources st2 =
          Some (Inr ((header now2 userAgent (length ?valid) @ rest0) @ summary st1', st2'))"
    using collected(1) r(2) s by (simp add: collectContext_def Let_def)
  then have "collectContext URL fetch now2 userAgent resources st2 =
          Some (Inr (''=== CORPORATE DOCUMENTATION CONTEXT ==='' @ nl @ ''Generated: '' @ now2 @
                     (?H @ rest0 @ summary st1'), st2'))"
    unfolding h by simp
  moreover have "doc1 = ''=== CORPORATE DOCUMENTATION CONTEXT ==='' @ nl @ ''Generated: '' @ now1 @
                     (?H @ rest0 @ summary st1')"
    using collected(3) r(1) unfolding h by simp
  ultimately show ?thesis using r(3,4) by blast
qed

theorem collectContext_twice_witness:
  "\<exists>doc1 st1 rest st2.
     collectContext URL0 web0 ''2026-11-03T10:00:00.000Z'' ''UA'' [home, about, other6] app0 =
       Some (Inr (doc1, st1)) \<and>
     visitedUrls st1 = [home, guide, other5, root, ext, other6] \<and>
     doc1 = ''=== CORPORATE DOCUMENTATION CONTEXT ==='' @ nl @
            ''Generated: '' @ ''2026-11-03T10:00:00.000Z'' @ rest \<and>
     collectContext URL0 web0 ''2026-11-03T11:30:00.000Z'' ''UA'' [home, about, other6] st1 =
       Some (Inr (''=== CORPORATE DOCUMENTATION CONTEXT ==='' @ nl @
                  ''Generated: '' @ ''2026-11-03T11:30:00.000Z'' @ rest, st2))"
proof -
  have "case collectContext URL0 web0 ''2026-11-03T10:00:00.000Z'' ''UA'' [home, about, other6] app0 of
          Some (Inr (doc1, st1)) \<Rightarrow> visitedUrls st1 = [home, guide, other5, root, ext, other6]
        | _ \<Rightarrow> False"
    by code_simp
  then obtain doc1 st1 where
    c: "collectContext URL0 web0 ''2026-11-03T10:00:00.000Z'' ''UA'' [home, about, other6] app0 =
          Some (Inr (doc1, st1))"
    and v: "visitedUrls st1 = [home, guide, other5, root, ext, other6]"
    by (auto split: option.splits sum.splits)
  from collectContext_twice [OF c, of "''2026-11-03T11:30:00.000Z''" st1] c v
  show ?thesis by blast
qed


section \<open>Phase 1 comes to an end\<close>








end
